theory Spec2Isabelle
  imports Main "HOL-Library.Word"
begin

unbundle bit_operations_syntax

section \<open>Signature V4 utilities (signature/v4-utils.go)\<close>

text \<open>
  Go strings are byte sequences; they are modelled as \<open>string\<close>, a list of 8-bit
  \<open>char\<close>s. A rune (Go's \<open>int32\<close> code point) is an \<open>int\<close>: no rune computed below
  leaves the range \<open>0 .. 0x10FFFF\<close>, so no 32-bit wrap-around can occur. A \<open>[]byte\<close>
  handed to the hash functions is an \<open>8 word list\<close>.
\<close>

subsection \<open>isValidRegion\<close>

definition REGION :: string where
  "REGION = ''cn-bj-1''"

definition isValidRegion :: "string \<Rightarrow> bool" where
  "isValidRegion reqRegion = (if reqRegion = '''' then True else reqRegion = REGION)"

subsection \<open>The request and the canonical header key of net/http\<close>

text \<open>
  \<open>http.Request\<close> as far as \<open>getCanonicalHeaders\<close> reads it: the header map
  (\<open>map[string][]string\<close>) and the \<open>Host\<close> field.
\<close>

record Request =
  Header :: "string \<rightharpoonup> string list"
  Host :: string

datatype error = ErrMissingRequiredSignedHeader

text \<open>
  \<open>http.CanonicalHeaderKey\<close> belongs to Go's standard library. Its documented behaviour:
  a key containing a byte that is not a header-field token byte is returned unchanged;
  otherwise the first letter and every letter after a hyphen are upper-cased and all
  other letters are lower-cased.
\<close>

definition isLower :: "char \<Rightarrow> bool" where
  "isLower c = (of_char CHR ''a'' \<le> (of_char c :: nat) \<and> (of_char c :: nat) \<le> of_char CHR ''z'')"

definition isUpper :: "char \<Rightarrow> bool" where
  "isUpper c = (of_char CHR ''A'' \<le> (of_char c :: nat) \<and> (of_char c :: nat) \<le> of_char CHR ''Z'')"

definition isDigit :: "char \<Rightarrow> bool" where
  "isDigit c = (of_char CHR ''0'' \<le> (of_char c :: nat) \<and> (of_char c :: nat) \<le> of_char CHR ''9'')"

definition toLower :: nat where
  "toLower = 32"

definition validHeaderFieldByte :: "char \<Rightarrow> bool" where
  "validHeaderFieldByte c =
     (isLower c \<or> isUpper c \<or> isDigit c \<or> c \<in> set ''!#$%&*+-.^_`|~'' \<or> c = CHR 0x27)"

fun canonicalMIMEHeaderKey :: "bool \<Rightarrow> string \<Rightarrow> string" where
  "canonicalMIMEHeaderKey upper [] = []"
| "canonicalMIMEHeaderKey upper (c # cs) =
     (let c' = (if upper \<and> isLower c then char_of ((of_char c :: nat) - toLower)
                else if \<not> upper \<and> isUpper c then char_of ((of_char c :: nat) + toLower)
                else c)
      in c' # canonicalMIMEHeaderKey (c' = CHR ''-'') cs)"

definition CanonicalHeaderKey :: "string \<Rightarrow> string" where
  "CanonicalHeaderKey s =
     (if list_all validHeaderFieldByte s then canonicalMIMEHeaderKey True s else s)"

subsection \<open>getCanonicalHeaders\<close>

text \<open>The inner loop over \<open>values\<close>: a comma before every value but the first.\<close>

fun joinValues :: "nat \<Rightarrow> string list \<Rightarrow> string \<Rightarrow> string" where
  "joinValues idx [] canonicalHeaders = canonicalHeaders"
| "joinValues idx (v # vs) canonicalHeaders =
     joinValues (idx + 1) vs ((if idx > 0 then canonicalHeaders @ '','' else canonicalHeaders) @ v)"

text \<open>
  The map lookup \<open>values, ok := req.Header[key]\<close> followed by the two overrides, in the
  order of the source: first \<open>expect\<close>, then \<open>host\<close>.
\<close>

definition lookupSigned :: "Request \<Rightarrow> string \<Rightarrow> string list \<times> bool" where
  "lookupSigned req header =
     (let (values, ok) = (case Header req (CanonicalHeaderKey header) of
                            None \<Rightarrow> ([], False) | Some vs \<Rightarrow> (vs, True));
          (values, ok) = (if header = ''expect'' then ([''100-continue''], True) else (values, ok));
          (values, ok) = (if header = ''host'' then ([Host req], True) else (values, ok))
      in (values, ok))"

text \<open>The outer loop; the accumulator is the variable \<open>canonicalHeaders\<close>.\<close>

fun canonicalLoop :: "Request \<Rightarrow> string list \<Rightarrow> string \<Rightarrow> string \<times> error option" where
  "canonicalLoop req [] canonicalHeaders = (canonicalHeaders, None)"
| "canonicalLoop req (header # rest) canonicalHeaders =
     (let (values, ok) = lookupSigned req header
      in if \<not> ok then ('''', Some ErrMissingRequiredSignedHeader)
         else canonicalLoop req rest
                (joinValues 0 values (canonicalHeaders @ header @ '':'') @ ''\<newline>''))"

definition getCanonicalHeaders :: "string list \<Rightarrow> Request \<Rightarrow> string \<times> error option" where
  "getCanonicalHeaders signedHeaders req = canonicalLoop req signedHeaders ''''"

subsection \<open>The canonical header block in the words of the specification\<close>

fun commaJoined :: "string list \<Rightarrow> string" where
  "commaJoined [] = []"
| "commaJoined [v] = v"
| "commaJoined (v # w # vs) = v @ '','' @ commaJoined (w # vs)"

text \<open>
  The values a signed header stands for: the fixed value for \<open>expect\<close>, the host field
  for \<open>host\<close>, the stored values (in stored order) for any other name.
\<close>

definition signedValues :: "Request \<Rightarrow> string \<Rightarrow> string list" where
  "signedValues req name =
     (if name = ''expect'' then [''100-continue'']
      else if name = ''host'' then [Host req]
      else (case Header req (CanonicalHeaderKey name) of None \<Rightarrow> [] | Some vs \<Rightarrow> vs))"

definition headerLine :: "Request \<Rightarrow> string \<Rightarrow> string" where
  "headerLine req name = name @ '':'' @ commaJoined (signedValues req name) @ ''\<newline>''"

text \<open>A signed header is missing when it is neither compensated nor a key of the map.\<close>

definition missingHeader :: "Request \<Rightarrow> string \<Rightarrow> bool" where
  "missingHeader req name =
     (name \<noteq> ''expect'' \<and> name \<noteq> ''host'' \<and> Header req (CanonicalHeaderKey name) = None)"

text \<open>
  Two header names match case-insensitively when they agree after lower-casing their
  ASCII letters.
\<close>

definition lowerByte :: "char \<Rightarrow> char" where
  "lowerByte c = (if isUpper c then char_of ((of_char c :: nat) + toLower) else c)"

subsection \<open>UTF-8 as Go's unicode/utf8 package implements it\<close>

text \<open>
  The package belongs to Go's standard library. \<open>x AND 0x3F\<close> is written \<open>x mod 64\<close>,
  \<open>x << 6\<close> is \<open>x * 64\<close>, \<open>x >> 6\<close> is \<open>x div 64\<close>, and the bitwise or of a lead or
  continuation marker with the payload bits below it is a sum.
\<close>

definition RuneError :: int where
  "RuneError = 0xFFFD"

definition MaxRune :: int where
  "MaxRune = 0x10FFFF"

definition surrogateMin :: int where
  "surrogateMin = 0xD800"

definition surrogateMax :: int where
  "surrogateMax = 0xDFFF"

definition ValidRune :: "int \<Rightarrow> bool" where
  "ValidRune r = (if 0 \<le> r \<and> r < surrogateMin then True
                  else if surrogateMax < r \<and> r \<le> MaxRune then True
                  else False)"

definition RuneLen :: "int \<Rightarrow> int" where
  "RuneLen r = (if r < 0 then -1
                else if r \<le> 0x7F then 1
                else if r \<le> 0x7FF then 2
                else if surrogateMin \<le> r \<and> r \<le> surrogateMax then -1
                else if r \<le> 0xFFFF then 3
                else if r \<le> MaxRune then 4
                else -1)"

text \<open>
  \<open>EncodeRune\<close> returns the bytes it writes. A rune that is out of range or a surrogate
  is written as \<open>RuneError\<close>; the first test reads the rune as \<open>uint32\<close>, so a negative
  rune falls to that case.
\<close>

definition encode3 :: "int \<Rightarrow> string" where
  "encode3 r = [char_of (0xE0 + r div 4096), char_of (0x80 + r div 64 mod 64),
                char_of (0x80 + r mod 64)]"

definition EncodeRune :: "int \<Rightarrow> string" where
  "EncodeRune r =
     (if 0 \<le> r \<and> r \<le> 0x7F then [char_of r]
      else if 0 \<le> r \<and> r \<le> 0x7FF then [char_of (0xC0 + r div 64), char_of (0x80 + r mod 64)]
      else if r < 0 \<or> r > MaxRune \<or> surrogateMin \<le> r \<and> r \<le> surrogateMax
        then encode3 RuneError
      else if r \<le> 0xFFFF then encode3 r
      else [char_of (0xF0 + r div 262144), char_of (0x80 + r div 4096 mod 64),
            char_of (0x80 + r div 64 mod 64), char_of (0x80 + r mod 64)])"

definition locb :: int where
  "locb = 0x80"

definition hicb :: int where
  "hicb = 0xBF"

text \<open>
  The tables \<open>first\<close> and \<open>acceptRanges\<close>: the length of the sequence a lead byte
  announces (0 for a byte that cannot lead), and the range its second byte must lie in.
\<close>

definition seqLen :: "int \<Rightarrow> nat" where
  "seqLen b0 = (if 0xC2 \<le> b0 \<and> b0 \<le> 0xDF then 2
                else if 0xE0 \<le> b0 \<and> b0 \<le> 0xEF then 3
                else if 0xF0 \<le> b0 \<and> b0 \<le> 0xF4 then 4
                else 0)"

definition acceptRange :: "int \<Rightarrow> int \<times> int" where
  "acceptRange b0 = (if b0 = 0xE0 then (0xA0, hicb)
                     else if b0 = 0xED then (locb, 0x9F)
                     else if b0 = 0xF0 then (0x90, hicb)
                     else if b0 = 0xF4 then (locb, 0x8F)
                     else (locb, hicb))"

definition DecodeRuneInString :: "string \<Rightarrow> int \<times> nat" where
  "DecodeRuneInString s =
     (if length s < 1 then (RuneError, 0)
      else let s0 = of_char (s ! 0) in
        if s0 < 0x80 then (s0, 1)
        else if seqLen s0 = 0 then (RuneError, 1)
        else let sz = seqLen s0; (lo, hi) = acceptRange s0 in
          if length s < sz then (RuneError, 1)
          else let s1 = of_char (s ! 1) in
            if s1 < lo \<or> hi < s1 then (RuneError, 1)
            else if sz \<le> 2 then (s0 mod 32 * 64 + s1 mod 64, 2)
            else let s2 = of_char (s ! 2) in
              if s2 < locb \<or> hicb < s2 then (RuneError, 1)
              else if sz \<le> 3 then (s0 mod 16 * 4096 + s1 mod 64 * 64 + s2 mod 64, 3)
              else let s3 = of_char (s ! 3) in
                if s3 < locb \<or> hicb < s3 then (RuneError, 1)
                else (s0 mod 8 * 262144 + s1 mod 64 * 4096 + s2 mod 64 * 64 + s3 mod 64, 4))"

text \<open>
  \<open>for _, s := range name\<close>: the runes of a string in order. Each step decodes one rune
  at the current index and advances by its width, which is at least 1 on a non-empty
  rest; an invalid sequence yields \<open>RuneError\<close> and advances one byte.
\<close>

fun rangeRunes :: "string \<Rightarrow> int list" where
  "rangeRunes [] = []"
| "rangeRunes (c # cs) =
     (let (r, size) = DecodeRuneInString (c # cs) in r # rangeRunes (drop (size - 1) cs))"

text \<open>\<open>string(s)\<close> for a rune \<open>s\<close>: its UTF-8 encoding.\<close>

definition stringOfRune :: "int \<Rightarrow> string" where
  "stringOfRune r = EncodeRune r"

subsection \<open>getURLEncodedName\<close>

text \<open>
  \<open>reservedNames.MatchString\<close> for the pattern \<open>^[a-zA-Z0-9-_.~/]+$\<close>: the regular
  expression engine reads the string rune by rune, as \<open>range\<close> does, and the pattern asks
  for at least one rune, all of them in the class.
\<close>

definition reservedClass :: "int \<Rightarrow> bool" where
  "reservedClass r =
     (of_char CHR ''a'' \<le> r \<and> r \<le> of_char CHR ''z'' \<or>
      of_char CHR ''A'' \<le> r \<and> r \<le> of_char CHR ''Z'' \<or>
      of_char CHR ''0'' \<le> r \<and> r \<le> of_char CHR ''9'' \<or>
      r \<in> of_char ` set ''-_.~/'')"

definition reservedNamesMatchString :: "string \<Rightarrow> bool" where
  "reservedNamesMatchString name =
     (rangeRunes name \<noteq> [] \<and> list_all reservedClass (rangeRunes name))"

text \<open>\<open>hex.EncodeToString\<close>: two lower-case digits per byte.\<close>

definition hextable :: string where
  "hextable = ''0123456789abcdef''"

definition hexEncodeToString :: "string \<Rightarrow> string" where
  "hexEncodeToString src =
     concat (map (\<lambda>v. [hextable ! ((of_char v :: nat) div 16),
                        hextable ! ((of_char v :: nat) mod 16)]) src)"

text \<open>\<open>strings.ToUpper\<close> on the ASCII strings it is applied to here.\<close>

definition ToUpper :: "string \<Rightarrow> string" where
  "ToUpper s = map (\<lambda>c. if isLower c then char_of ((of_char c :: nat) - toLower) else c) s"

text \<open>The inner loop over the bytes \<open>u\<close> of one rune.\<close>

fun escapeBytes :: "string \<Rightarrow> string \<Rightarrow> string" where
  "escapeBytes [] encodedName = encodedName"
| "escapeBytes (r # u) encodedName =
     escapeBytes u (encodedName @ ''%'' @ ToUpper (hexEncodeToString [r]))"

text \<open>
  The outer loop over the runes of \<open>name\<close>, with the early \<open>return name\<close> when
  \<open>RuneLen\<close> is negative. Otherwise \<open>u\<close> is a slice of \<open>RuneLen s\<close> bytes that
  \<open>EncodeRune\<close> fills: the two agree on the length whenever \<open>RuneLen\<close> is not negative.
\<close>

fun encodeLoop :: "string \<Rightarrow> int list \<Rightarrow> string \<Rightarrow> string" where
  "encodeLoop name [] encodedName = encodedName"
| "encodeLoop name (s # rest) encodedName =
     (if of_char CHR ''A'' \<le> s \<and> s \<le> of_char CHR ''Z'' \<or>
         of_char CHR ''a'' \<le> s \<and> s \<le> of_char CHR ''z'' \<or>
         of_char CHR ''0'' \<le> s \<and> s \<le> of_char CHR ''9''
      then encodeLoop name rest (encodedName @ stringOfRune s)
      else if s = of_char CHR ''-'' \<or> s = of_char CHR ''_'' \<or> s = of_char CHR ''.'' \<or>
              s = of_char CHR ''~'' \<or> s = of_char CHR ''/''
      then encodeLoop name rest (encodedName @ stringOfRune s)
      else let len = RuneLen s in
        if len < 0 then name
        else let u = EncodeRune s in encodeLoop name rest (escapeBytes u encodedName))"

definition getURLEncodedName :: "string \<Rightarrow> string" where
  "getURLEncodedName name =
     (if reservedNamesMatchString name then name
      else encodeLoop name (rangeRunes name) '''')"

subsection \<open>The encoding in the words of the specification\<close>

text \<open>The unreserved code points: ASCII letters, ASCII digits and the five marks.\<close>

definition unreserved :: "int \<Rightarrow> bool" where
  "unreserved c =
     ((of_char CHR ''A'' \<le> c \<and> c \<le> of_char CHR ''Z'') \<or>
      (of_char CHR ''a'' \<le> c \<and> c \<le> of_char CHR ''z'') \<or>
      (of_char CHR ''0'' \<le> c \<and> c \<le> of_char CHR ''9'') \<or>
      c = of_char CHR ''-'' \<or> c = of_char CHR ''_'' \<or> c = of_char CHR ''.'' \<or>
      c = of_char CHR ''~'' \<or> c = of_char CHR ''/'')"

definition upperHexDigit :: "nat \<Rightarrow> char" where
  "upperHexDigit d = ''0123456789ABCDEF'' ! d"

definition percentTriplet :: "char \<Rightarrow> string" where
  "percentTriplet b =
     [CHR ''%'', upperHexDigit (of_char b div 16), upperHexDigit (of_char b mod 16)]"

text \<open>A string as the code points it spells: the concatenation of their UTF-8 encodings.\<close>

definition utf8String :: "int list \<Rightarrow> string" where
  "utf8String cps = concat (map EncodeRune cps)"

definition emitCodePoint :: "int \<Rightarrow> string" where
  "emitCodePoint c =
     (if unreserved c then EncodeRune c else concat (map percentTriplet (EncodeRune c)))"

text \<open>The strings of the fast path: the bytes of the class \<open>[A-Za-z0-9\-_.~/]\<close>.\<close>

definition unreservedByte :: "char \<Rightarrow> bool" where
  "unreservedByte b = (isLower b \<or> isUpper b \<or> isDigit b \<or> b \<in> set ''-_.~/'')"

subsection \<open>SHA-256 as Go's crypto/sha256 package computes it\<close>

text \<open>
  The package belongs to Go's standard library. A \<open>uint32\<close> is a \<open>32 word\<close>, whose
  addition wraps as Go's does. The state of a digest is the eight chaining words; what
  has been written to a digest is kept as the list of its bytes, and \<open>sha256Sum\<close> is
  \<open>Sum(nil)\<close> on a digest those bytes were written to.
\<close>

type_synonym byte = "8 word"

type_synonym digestState =
  "32 word \<times> 32 word \<times> 32 word \<times> 32 word \<times> 32 word \<times> 32 word \<times> 32 word \<times> 32 word"

definition chunk :: nat where
  "chunk = 64"

definition Size :: nat where
  "Size = 32"

definition initState :: digestState where
  "initState = (0x6A09E667, 0xBB67AE85, 0x3C6EF372, 0xA54FF53A,
                0x510E527F, 0x9B05688C, 0x1F83D9AB, 0x5BE0CD19)"

definition roundConstants :: "32 word list" where
  "roundConstants =
    [0x428A2F98, 0x71374491, 0xB5C0FBCF, 0xE9B5DBA5, 0x3956C25B, 0x59F111F1,
     0x923F82A4, 0xAB1C5ED5, 0xD807AA98, 0x12835B01, 0x243185BE, 0x550C7DC3,
     0x72BE5D74, 0x80DEB1FE, 0x9BDC06A7, 0xC19BF174, 0xE49B69C1, 0xEFBE4786,
     0x0FC19DC6, 0x240CA1CC, 0x2DE92C6F, 0x4A7484AA, 0x5CB0A9DC, 0x76F988DA,
     0x983E5152, 0xA831C66D, 0xB00327C8, 0xBF597FC7, 0xC6E00BF3, 0xD5A79147,
     0x06CA6351, 0x14292967, 0x27B70A85, 0x2E1B2138, 0x4D2C6DFC, 0x53380D13,
     0x650A7354, 0x766A0ABB, 0x81C2C92E, 0x92722C85, 0xA2BFE8A1, 0xA81A664B,
     0xC24B8B70, 0xC76C51A3, 0xD192E819, 0xD6990624, 0xF40E3585, 0x106AA070,
     0x19A4C116, 0x1E376C08, 0x2748774C, 0x34B0BCB5, 0x391C0CB3, 0x4ED8AA4A,
     0x5B9CCA4F, 0x682E6FF3, 0x748F82EE, 0x78A5636F, 0x84C87814, 0x8CC70208,
     0x90BEFFFA, 0xA4506CEB, 0xBEF9A3F7, 0xC67178F2]"

text \<open>\<open>binary.BigEndian\<close>: reading and writing words, most significant byte first.\<close>

definition Uint32 :: "byte list \<Rightarrow> nat \<Rightarrow> 32 word" where
  "Uint32 p j = push_bit 24 (ucast (p ! j)) OR push_bit 16 (ucast (p ! (j + 1))) OR
                push_bit 8 (ucast (p ! (j + 2))) OR ucast (p ! (j + 3))"

definition PutUint32 :: "32 word \<Rightarrow> byte list" where
  "PutUint32 v = [ucast (drop_bit 24 v), ucast (drop_bit 16 v), ucast (drop_bit 8 v), ucast v]"

definition PutUint64 :: "64 word \<Rightarrow> byte list" where
  "PutUint64 v = [ucast (drop_bit 56 v), ucast (drop_bit 48 v), ucast (drop_bit 40 v),
                  ucast (drop_bit 32 v), ucast (drop_bit 24 v), ucast (drop_bit 16 v),
                  ucast (drop_bit 8 v), ucast v]"

text \<open>
  The message schedule: \<open>extendSchedule n w\<close> runs \<open>n\<close> iterations of the loop that
  appends \<open>w[i]\<close> for \<open>i = length w\<close>; it is started on the sixteen words of the block.
\<close>

fun extendSchedule :: "nat \<Rightarrow> 32 word list \<Rightarrow> 32 word list" where
  "extendSchedule 0 w = w"
| "extendSchedule (Suc n) w =
     (let i = length w;
          v1 = w ! (i - 2);
          t1 = word_rotr 17 v1 XOR word_rotr 19 v1 XOR drop_bit 10 v1;
          v2 = w ! (i - 15);
          t2 = word_rotr 7 v2 XOR word_rotr 18 v2 XOR drop_bit 3 v2
      in extendSchedule n (w @ [t1 + w ! (i - 7) + t2 + w ! (i - 16)]))"

text \<open>One of the 64 rounds, on the working variables \<open>a .. h\<close>.\<close>

fun compressRound :: "digestState \<Rightarrow> 32 word \<times> 32 word \<Rightarrow> digestState" where
  "compressRound (a, b, c, d, e, f, g, h) (k, wi) =
     (let t1 = h + (word_rotr 6 e XOR word_rotr 11 e XOR word_rotr 25 e)
                 + ((e AND f) XOR (NOT e AND g)) + k + wi;
          t2 = (word_rotr 2 a XOR word_rotr 13 a XOR word_rotr 22 a)
                 + ((a AND b) XOR (a AND c) XOR (b AND c))
      in (t1 + t2, a, b, c, d + t1, e, f, g))"

fun addState :: "digestState \<Rightarrow> digestState \<Rightarrow> digestState" where
  "addState (h0, h1, h2, h3, h4, h5, h6, h7) (a, b, c, d, e, f, g, h) =
     (h0 + a, h1 + b, h2 + c, h3 + d, h4 + e, h5 + f, h6 + g, h7 + h)"

text \<open>\<open>blockGeneric\<close>: the loop \<open>for len(p) >= chunk\<close> over the blocks of \<open>p\<close>.\<close>

function blockGeneric :: "digestState \<Rightarrow> byte list \<Rightarrow> digestState" where
  "blockGeneric hs p =
     (if length p \<ge> chunk
      then (let w = extendSchedule 48 (map (\<lambda>i. Uint32 p (i * 4)) [0..<16])
            in blockGeneric (addState hs (foldl compressRound hs (zip roundConstants w)))
                 (drop chunk p))
      else hs)"
  by pat_completeness auto
termination
  by (relation "measure (\<lambda>(hs, p). length p)") (auto simp: chunk_def)

declare blockGeneric.simps [simp del]

text \<open>
  \<open>checkSum\<close> on a digest that \<open>msg\<close> was written to: the padding (a byte \<open>0x80\<close>, zero
  bytes up to 56 modulo 64, the length in bits as a \<open>uint64\<close>) is written after the
  message, and the chaining words are put out big-endian. The digest hashes every full
  block as soon as it is complete, which is \<open>blockGeneric\<close> on the whole padded message.
\<close>

definition sha256Sum :: "byte list \<Rightarrow> byte list" where
  "sha256Sum msg =
     (let len = (of_nat (length msg) :: 64 word);
          t = (if unat (len mod 64) < 56 then 56 - unat (len mod 64)
               else 64 + 56 - unat (len mod 64));
          padlen = (0x80 # replicate (t - 1) 0) @ PutUint64 (push_bit 3 len)
      in case blockGeneric initState (msg @ padlen) of
           (h0, h1, h2, h3, h4, h5, h6, h7) \<Rightarrow>
             PutUint32 h0 @ PutUint32 h1 @ PutUint32 h2 @ PutUint32 h3 @
             PutUint32 h4 @ PutUint32 h5 @ PutUint32 h6 @ PutUint32 h7)"

subsection \<open>HMAC as Go's crypto/hmac package computes it, and sumHMAC\<close>

text \<open>
  The \<open>hmac\<close> struct over SHA-256: the two pads, and what has been written to the outer
  and to the inner digest.
\<close>

record hmac =
  opad :: "byte list"
  ipad :: "byte list"
  outer :: "byte list"
  inner :: "byte list"

definition padKey :: "byte \<Rightarrow> byte list \<Rightarrow> byte list" where
  "padKey x key = map (\<lambda>b. b XOR x) (take chunk key @ replicate (chunk - length key) 0)"

definition hmacNew :: "byte list \<Rightarrow> hmac" where
  "hmacNew key =
     (let outer0 = (if length key > chunk then key else []);
          key' = (if length key > chunk then sha256Sum outer0 else key);
          ipad0 = padKey 0x36 key';
          opad0 = padKey 0x5C key'
      in \<lparr>opad = opad0, ipad = ipad0, outer = outer0, inner = ipad0\<rparr>)"

definition hmacWrite :: "hmac \<Rightarrow> byte list \<Rightarrow> hmac" where
  "hmacWrite h p = h\<lparr>inner := inner h @ p\<rparr>"

text \<open>\<open>Sum(in)\<close>: the outer digest is reset, and the result is appended to \<open>in\<close>.\<close>

definition hmacSum :: "hmac \<Rightarrow> byte list \<Rightarrow> byte list \<times> hmac" where
  "hmacSum h in0 =
     (let origLen = length in0;
          in1 = in0 @ sha256Sum (inner h);
          h1 = h\<lparr>outer := []\<rparr>;
          h2 = h1\<lparr>outer := outer h1 @ opad h1\<rparr>;
          h3 = h2\<lparr>outer := outer h2 @ drop origLen in1\<rparr>
      in (take origLen in1 @ sha256Sum (outer h3), h3))"

definition sumHMAC :: "byte list \<Rightarrow> byte list \<Rightarrow> byte list" where
  "sumHMAC key data =
     (let hash = hmacNew key;
          hash = hmacWrite hash data
      in fst (hmacSum hash []))"

text \<open>The conversion \<open>[]byte(s)\<close> of a string.\<close>

definition bytesOf :: "string \<Rightarrow> byte list" where
  "bytesOf s = map (\<lambda>c. of_nat (of_char c)) s"

section \<open>Properties\<close>

subsection \<open>Region check\<close>

text \<open>
  C8: \<open>isValidRegion\<close> accepts the empty string, and accepts a non-empty string exactly
  when it is byte for byte the configured region; a differently cased spelling of the
  region is rejected. The function is total and has no error result.
\<close>

theorem isValidRegion_iff:
  "isValidRegion '''' \<and>
   (r \<noteq> '''' \<longrightarrow> isValidRegion r = (r = REGION)) \<and>
   \<not> isValidRegion ''CN-BJ-1''"
  by (simp add: isValidRegion_def REGION_def)

theorem isValidRegion_iff_witness:
  "''cn-bj-1'' \<noteq> '''' \<and> isValidRegion ''cn-bj-1'' \<and>
   ''wrong-region'' \<noteq> '''' \<and> \<not> isValidRegion ''wrong-region''"
  using isValidRegion_iff [of "''cn-bj-1''"] isValidRegion_iff [of "''wrong-region''"]
  by (simp add: REGION_def)

subsection \<open>Canonical headers\<close>

lemma joinValues_pos:
  "0 < idx \<Longrightarrow> joinValues idx vs acc = acc @ concat (map (\<lambda>v. '','' @ v) vs)"
  by (induction vs arbitrary: idx acc) auto

lemma commaJoined_Cons: "commaJoined (v # vs) = v @ concat (map (\<lambda>v. '','' @ v) vs)"
  by (induction vs arbitrary: v) auto

lemma joinValues_commaJoined: "joinValues 0 vs acc = acc @ commaJoined vs"
proof (cases vs)
  case Nil
  then show ?thesis by simp
next
  case (Cons v ws)
  then show ?thesis by (simp add: joinValues_pos commaJoined_Cons del: commaJoined.simps)
qed

lemma lookupSigned_eq:
  "lookupSigned req h = (signedValues req h, \<not> missingHeader req h)"
  by (auto simp: lookupSigned_def signedValues_def missingHeader_def split: option.splits)

lemma canonicalLoop_eq:
  "canonicalLoop req hs acc =
     (if \<exists>h \<in> set hs. missingHeader req h then ('''', Some ErrMissingRequiredSignedHeader)
      else (acc @ concat (map (headerLine req) hs), None))"
  by (induction hs arbitrary: acc)
     (auto simp: lookupSigned_eq joinValues_commaJoined headerLine_def)

lemma getCanonicalHeaders_eq:
  "getCanonicalHeaders hs req =
     (if \<exists>h \<in> set hs. missingHeader req h then ('''', Some ErrMissingRequiredSignedHeader)
      else (concat (map (headerLine req) hs), None))"
  by (simp add: getCanonicalHeaders_def canonicalLoop_eq)

lemma key_x_amz_date: "CanonicalHeaderKey ''x-amz-date'' = ''X-Amz-Date''"
  by code_simp

lemma key_x_multi: "CanonicalHeaderKey ''x-multi'' = ''X-Multi''"
  by code_simp

text \<open>
  The lookup key does not depend on the case of the letters of a signed header name
  made of token bytes: names that differ in case only reach the same entry of the map.
\<close>

lemma lowerByte_upper:
  assumes "isUpper c"
  shows "isLower (lowerByte c)" "\<not> isUpper (lowerByte c)"
    "char_of ((of_char (lowerByte c) :: nat) - toLower) = c" "lowerByte c \<noteq> CHR ''-''"
    "c \<noteq> CHR ''-''" "\<not> isLower c"
proof -
  let ?n = "of_char c :: nat"
  have n: "65 \<le> ?n" "?n \<le> 90" using assms by (simp_all add: isUpper_def)
  have l: "lowerByte c = char_of (?n + 32)" using assms by (simp add: lowerByte_def toLower_def)
  have v: "(of_char (lowerByte c) :: nat) = ?n + 32" unfolding l using n by simp
  show "isLower (lowerByte c)" using n v by (simp add: isLower_def)
  show "\<not> isUpper (lowerByte c)" using n v by (simp add: isUpper_def)
  show "char_of ((of_char (lowerByte c) :: nat) - toLower) = c" using v by (simp add: toLower_def)
  show "lowerByte c \<noteq> CHR ''-''" using v n by (auto simp del: of_char_eq_iff simp: of_char_eq_iff [symmetric, where ?'a = nat])
  show "c \<noteq> CHR ''-''" using n by auto
  show "\<not> isLower c" using n by (simp add: isLower_def)
qed

lemma canonicalMIMEHeaderKey_lowerByte:
  "canonicalMIMEHeaderKey upper (map lowerByte s) = canonicalMIMEHeaderKey upper s"
proof (induction s arbitrary: upper)
  case Nil
  then show ?case by simp
next
  case (Cons c s)
  show ?case
  proof (cases "isUpper c")
    case True
    have l: "char_of ((of_char c :: nat) + toLower) = lowerByte c"
      using True by (simp add: lowerByte_def)
    show ?thesis
      using True lowerByte_upper [OF True] Cons.IH
      by (cases upper) (simp_all add: Let_def l)
  next
    case False
    then show ?thesis using Cons.IH by (simp add: lowerByte_def Let_def)
  qed
qed

lemma validHeaderFieldByte_lowerByte:
  "validHeaderFieldByte c \<Longrightarrow> validHeaderFieldByte (lowerByte c)"
  using lowerByte_upper(1) [of c] by (auto simp: validHeaderFieldByte_def lowerByte_def)

lemma CanonicalHeaderKey_case_insensitive:
  assumes "list_all validHeaderFieldByte s"
  shows "CanonicalHeaderKey (map lowerByte s) = CanonicalHeaderKey s"
proof -
  have "list_all validHeaderFieldByte (map lowerByte s)"
    using assms validHeaderFieldByte_lowerByte by (auto simp: list_all_iff)
  then show ?thesis using assms by (simp add: CanonicalHeaderKey_def canonicalMIMEHeaderKey_lowerByte)
qed

text \<open>
  C4: whenever \<open>getCanonicalHeaders\<close> succeeds, its output is the concatenation, in the
  order of the signed-header list, of one line per signed header: the name as given, a
  colon, the header's values joined by commas without spaces in their stored order, and
  a newline. The header map is a function of the key, so no storage order can show.
\<close>

theorem getCanonicalHeaders_lines:
  assumes "getCanonicalHeaders signedHeaders req = (out, None)"
  shows "out = concat (map (headerLine req) signedHeaders)"
  using assms by (simp add: getCanonicalHeaders_eq split: if_splits)

theorem getCanonicalHeaders_lines_witness:
  "getCanonicalHeaders [''host'', ''x-amz-date'']
     \<lparr>Header = [''X-Amz-Date'' \<mapsto> [''20150101T000000Z'']], Host = ''example.com''\<rparr>
     = (''host:example.com\<newline>x-amz-date:20150101T000000Z\<newline>'', None) \<and>
   getCanonicalHeaders [''x-multi'']
     \<lparr>Header = [''X-Multi'' \<mapsto> [''a'', ''b'']], Host = ''example.com''\<rparr>
     = (''x-multi:a,b\<newline>'', None)"
proof -
  let ?r1 = "\<lparr>Header = [''X-Amz-Date'' \<mapsto> [''20150101T000000Z'']], Host = ''example.com''\<rparr>"
  let ?r2 = "\<lparr>Header = [''X-Multi'' \<mapsto> [''a'', ''b'']], Host = ''example.com''\<rparr>"
  obtain o1 where e1: "getCanonicalHeaders [''host'', ''x-amz-date''] ?r1 = (o1, None)"
    by (simp add: getCanonicalHeaders_def lookupSigned_def key_x_amz_date)
  obtain o2 where e2: "getCanonicalHeaders [''x-multi''] ?r2 = (o2, None)"
    by (simp add: getCanonicalHeaders_def lookupSigned_def key_x_multi)
  have "o1 = ''host:example.com\<newline>x-amz-date:20150101T000000Z\<newline>''"
    using getCanonicalHeaders_lines [OF e1]
    by (simp add: headerLine_def signedValues_def key_x_amz_date)
  moreover have "o2 = ''x-multi:a,b\<newline>''"
    using getCanonicalHeaders_lines [OF e2]
    by (simp add: headerLine_def signedValues_def key_x_multi)
  ultimately show ?thesis using e1 e2 by simp
qed

text \<open>
  C5: if some signed header other than \<open>expect\<close> and \<open>host\<close> has no entry in the header
  map under its canonical key, \<open>getCanonicalHeaders\<close> returns the empty string together
  with \<open>ErrMissingRequiredSignedHeader\<close>, whatever precedes or follows that header in
  the list; otherwise it returns no error. No other function of the file has an error
  result.
\<close>

theorem missing_signed_header_fails:
  "if \<exists>h \<in> set signedHeaders. missingHeader req h
   then getCanonicalHeaders signedHeaders req = ('''', Some ErrMissingRequiredSignedHeader)
   else snd (getCanonicalHeaders signedHeaders req) = None"
  by (simp add: getCanonicalHeaders_eq)

theorem missing_signed_header_fails_witness:
  "missingHeader \<lparr>Header = Map.empty, Host = ''example.com''\<rparr> ''x-custom-header'' \<and>
   getCanonicalHeaders [''host'', ''x-custom-header'', ''expect'']
     \<lparr>Header = Map.empty, Host = ''example.com''\<rparr>
     = ('''', Some ErrMissingRequiredSignedHeader) \<and>
   \<not> missingHeader \<lparr>Header = Map.empty, Host = ''example.com''\<rparr> ''host'' \<and>
   snd (getCanonicalHeaders [''host''] \<lparr>Header = Map.empty, Host = ''example.com''\<rparr>) = None"
  using missing_signed_header_fails
          [of "[''host'', ''x-custom-header'', ''expect'']"
              "\<lparr>Header = Map.empty, Host = ''example.com''\<rparr>"]
        missing_signed_header_fails
          [of "[''host'']" "\<lparr>Header = Map.empty, Host = ''example.com''\<rparr>"]
  by (simp add: missingHeader_def)

text \<open>
  C6: a signed header \<open>expect\<close> always contributes the line \<open>expect:100-continue\<close>, for
  every request: whether the header map has an \<open>Expect\<close> entry or not, and whatever
  values that entry holds. With no other signed header the result is that line and no
  error.
\<close>

theorem expect_always_present:
  assumes "getCanonicalHeaders before req = (s, None)"
      and "getCanonicalHeaders after req = (t, None)"
  shows "getCanonicalHeaders (before @ ''expect'' # after) req
           = (s @ ''expect:100-continue\<newline>'' @ t, None)"
  using assms
  by (auto simp: getCanonicalHeaders_eq headerLine_def signedValues_def missingHeader_def
           split: if_splits)

theorem expect_always_present_witness:
  "getCanonicalHeaders [''expect''] \<lparr>Header = Map.empty, Host = ''example.com''\<rparr>
     = (''expect:100-continue\<newline>'', None) \<and>
   getCanonicalHeaders [''expect'']
     \<lparr>Header = [''Expect'' \<mapsto> [''200-other'', ''300-more'']], Host = ''example.com''\<rparr>
     = (''expect:100-continue\<newline>'', None)"
proof -
  have e: "getCanonicalHeaders [] r = ('''', None)" for r
    by (simp add: getCanonicalHeaders_def)
  show ?thesis
    using expect_always_present [OF e e, of "\<lparr>Header = Map.empty, Host = ''example.com''\<rparr>"]
          expect_always_present [OF e e,
            of "\<lparr>Header = [''Expect'' \<mapsto> [''200-other'', ''300-more'']], Host = ''example.com''\<rparr>"]
    by simp
qed

text \<open>
  C7: a signed header \<open>host\<close> always contributes the line made of \<open>host:\<close> and the
  request's \<open>Host\<close> field, for every request: whether the header map has a \<open>Host\<close>
  entry or not, and ignoring the values of that entry.
\<close>

theorem host_from_request_field:
  assumes "getCanonicalHeaders before req = (s, None)"
      and "getCanonicalHeaders after req = (t, None)"
  shows "getCanonicalHeaders (before @ ''host'' # after) req
           = (s @ ''host:'' @ Host req @ ''\<newline>'' @ t, None)"
  using assms
  by (auto simp: getCanonicalHeaders_eq headerLine_def signedValues_def missingHeader_def
           split: if_splits)

theorem host_from_request_field_witness:
  "getCanonicalHeaders [''host''] \<lparr>Header = Map.empty, Host = ''example.com''\<rparr>
     = (''host:example.com\<newline>'', None) \<and>
   getCanonicalHeaders [''host'']
     \<lparr>Header = [''Host'' \<mapsto> [''other.example'', ''third.example'']], Host = ''example.com''\<rparr>
     = (''host:example.com\<newline>'', None)"
proof -
  have e: "getCanonicalHeaders [] r = ('''', None)" for r
    by (simp add: getCanonicalHeaders_def)
  show ?thesis
    using host_from_request_field [OF e e, of "\<lparr>Header = Map.empty, Host = ''example.com''\<rparr>"]
          host_from_request_field [OF e e,
            of "\<lparr>Header = [''Host'' \<mapsto> [''other.example'', ''third.example'']], Host = ''example.com''\<rparr>"]
    by simp
qed

text \<open>
  C10: a signed-header list made of \<open>host\<close> and \<open>expect\<close> only never fails, in any
  request state; with an empty \<open>Host\<close> field a signed \<open>host\<close> yields the line \<open>host:\<close>
  and no error; and the compensation applies to these two exact lower-case names only:
  any other name, such as \<open>Host\<close> or \<open>EXPECT\<close>, fails when the map has no entry under
  its canonical key.
\<close>

theorem host_expect_never_missing:
  "(set signedHeaders \<subseteq> {''host'', ''expect''} \<longrightarrow>
      snd (getCanonicalHeaders signedHeaders req) = None) \<and>
   (Host req = '''' \<longrightarrow> getCanonicalHeaders [''host''] req = (''host:\<newline>'', None)) \<and>
   (name \<notin> {''host'', ''expect''} \<and> Header req (CanonicalHeaderKey name) = None \<longrightarrow>
      getCanonicalHeaders [name] req = ('''', Some ErrMissingRequiredSignedHeader))"
  by (auto simp: getCanonicalHeaders_eq headerLine_def signedValues_def missingHeader_def)

theorem host_expect_never_missing_witness:
  "set [''host'', ''expect'', ''host''] \<subseteq> {''host'', ''expect''} \<and>
   snd (getCanonicalHeaders [''host'', ''expect'', ''host''] \<lparr>Header = Map.empty, Host = ''''\<rparr>) = None \<and>
   getCanonicalHeaders [''host''] \<lparr>Header = Map.empty, Host = ''''\<rparr> = (''host:\<newline>'', None) \<and>
   getCanonicalHeaders [''Host''] \<lparr>Header = Map.empty, Host = ''''\<rparr>
     = ('''', Some ErrMissingRequiredSignedHeader) \<and>
   getCanonicalHeaders [''EXPECT''] \<lparr>Header = Map.empty, Host = ''''\<rparr>
     = ('''', Some ErrMissingRequiredSignedHeader)"
  using host_expect_never_missing
          [of "[''host'', ''expect'', ''host'']" "\<lparr>Header = Map.empty, Host = ''''\<rparr>" "''Host''"]
        host_expect_never_missing
          [of "[]" "\<lparr>Header = Map.empty, Host = ''''\<rparr>" "''EXPECT''"]
  by simp

subsection \<open>URL encoding of names\<close>

lemma of_char_int_range: "0 \<le> (of_char c :: int) \<and> (of_char c :: int) < 256"
proof -
  have "(of_char c :: int) = int (of_char c)" by (simp add: of_nat_of_char)
  moreover have "(of_char c :: nat) < 256" by simp
  ultimately show ?thesis by linarith
qed

lemma strip_marker:
  fixes q :: int
  assumes "0 \<le> q" "q < n"
  shows "(k * n + q) mod n = q"
  using assms by simp

lemma lead2: "0 \<le> q \<Longrightarrow> q < 32 \<Longrightarrow> (0xC0 + q) mod 32 = (q::int)"
  using strip_marker [of q 32 6] by simp

lemma lead3: "0 \<le> q \<Longrightarrow> q < 16 \<Longrightarrow> (0xE0 + q) mod 16 = (q::int)"
  using strip_marker [of q 16 14] by simp

lemma lead4: "0 \<le> q \<Longrightarrow> q < 8 \<Longrightarrow> (0xF0 + q) mod 8 = (q::int)"
  using strip_marker [of q 8 30] by simp

lemma cont: "0 \<le> q \<Longrightarrow> q < 64 \<Longrightarrow> (0x80 + q) mod 64 = (q::int)"
  using strip_marker [of q 64 2] by simp

text \<open>Payload digits of a code point in base 64.\<close>

lemma digits64:
  fixes r :: int
  shows "r div 64 * 64 + r mod 64 = r"
    and "r div 4096 * 4096 + r div 64 mod 64 * 64 + r mod 64 = r"
    and "r div 262144 * 262144 + r div 4096 mod 64 * 4096 + r div 64 mod 64 * 64 + r mod 64 = r"
proof -
  show 1: "r div 64 * 64 + r mod 64 = r" by simp
  have a: "r div 4096 = r div 64 div 64" by (simp add: zdiv_zmult2_eq)
  have b: "r div 64 div 64 * 64 + r div 64 mod 64 = r div 64" by simp
  show 2: "r div 4096 * 4096 + r div 64 mod 64 * 64 + r mod 64 = r"
    using 1 a b by linarith
  have c: "r div 262144 = r div 4096 div 64" by (simp add: zdiv_zmult2_eq)
  have d: "r div 4096 div 64 * 64 + r div 4096 mod 64 = r div 4096" by simp
  have e: "r div 4096 * 64 + r div 64 mod 64 = r div 64" using a b by linarith
  show "r div 262144 * 262144 + r div 4096 mod 64 * 4096 + r div 64 mod 64 * 64 + r mod 64 = r"
    using 1 c d e by linarith
qed

lemma decode1:
  assumes "0 \<le> r" "r \<le> 0x7F"
  shows "DecodeRuneInString (char_of r # rest) = (r, 1)"
  using assms by (simp add: DecodeRuneInString_def Let_def)

lemma decode2:
  assumes "0x80 \<le> r" "r \<le> 0x7FF"
  shows "DecodeRuneInString (char_of (0xC0 + r div 64) # char_of (0x80 + r mod 64) # rest) = (r, 2)"
proof -
  define a where "a = 0xC0 + r div 64"
  define b where "b = 0x80 + r mod 64"
  have q: "2 \<le> r div 64" "r div 64 < 32" using assms by linarith+
  have a: "0xC2 \<le> a" "a \<le> 0xDF" using q unfolding a_def by linarith+
  have b: "0x80 \<le> b" "b \<le> 0xBF" unfolding b_def by simp_all
  have "a mod 32 = r div 64" unfolding a_def using q by (simp add: lead2)
  moreover have "b mod 64 = r mod 64" unfolding b_def by (simp add: cont)
  ultimately have val: "a mod 32 * 64 + b mod 64 = r" by simp
  have oa: "of_char (char_of a) = a" using a by simp
  have ob: "of_char (char_of b) = b" using b by simp
  have sl: "seqLen a = 2" using a by (simp add: seqLen_def)
  have ar: "acceptRange a = (0x80, 0xBF)" using a by (simp add: acceptRange_def locb_def hicb_def)
  show ?thesis
    unfolding a_def [symmetric] b_def [symmetric] DecodeRuneInString_def
    using a b by (simp add: Let_def oa ob sl ar val)
qed

lemma decode3:
  assumes "0x800 \<le> r" "r \<le> 0xFFFF" "\<not> (0xD800 \<le> r \<and> r \<le> 0xDFFF)"
  shows "DecodeRuneInString (char_of (0xE0 + r div 4096) # char_of (0x80 + r div 64 mod 64) #
           char_of (0x80 + r mod 64) # rest) = (r, 3)"
proof -
  define x where "x = r div 4096"
  define y where "y = r div 64 mod 64"
  define z where "z = r mod 64"
  define a where "a = 0xE0 + x"
  define b where "b = 0x80 + y"
  define c where "c = 0x80 + z"
  have r: "x * 4096 + y * 64 + z = r" unfolding x_def y_def z_def by (rule digits64)
  have y: "0 \<le> y" "y < 64" and z: "0 \<le> z" "z < 64" unfolding y_def z_def by simp_all
  have x: "0 \<le> x" "x < 16" using assms r y z by linarith+
  have a: "0xE0 \<le> a" "a \<le> 0xEF" using x unfolding a_def by linarith+
  have b: "0x80 \<le> b" "b \<le> 0xBF" using y unfolding b_def by linarith+
  have c: "0x80 \<le> c" "c \<le> 0xBF" using z unfolding c_def by linarith+
  have lo: "a = 0xE0 \<Longrightarrow> 0xA0 \<le> b" using assms r y z unfolding a_def b_def by linarith
  have hi: "a = 0xED \<Longrightarrow> b \<le> 0x9F" using assms r y z unfolding a_def b_def by linarith
  have "a mod 16 = x" "b mod 64 = y" "c mod 64 = z"
    unfolding a_def b_def c_def using x y z by (simp_all add: lead3 cont)
  then have val: "a mod 16 * 4096 + b mod 64 * 64 + c mod 64 = r" using r by simp
  have oa: "of_char (char_of a) = a" using a by simp
  have ob: "of_char (char_of b) = b" using b by simp
  have oc: "of_char (char_of c) = c" using c by simp
  have sl: "seqLen a = 3" using a by (simp add: seqLen_def)
  have ar: "fst (acceptRange a) \<le> b" "b \<le> snd (acceptRange a)"
    using a b lo hi by (auto simp: acceptRange_def locb_def hicb_def)
  have "DecodeRuneInString (char_of a # char_of b # char_of c # rest) = (r, 3)"
    unfolding DecodeRuneInString_def
    using a b c ar by (simp add: Let_def oa ob oc sl val locb_def hicb_def split_beta)
  then show ?thesis unfolding a_def b_def c_def x_def y_def z_def .
qed

lemma decode4:
  assumes "0x10000 \<le> r" "r \<le> 0x10FFFF"
  shows "DecodeRuneInString (char_of (0xF0 + r div 262144) # char_of (0x80 + r div 4096 mod 64) #
           char_of (0x80 + r div 64 mod 64) # char_of (0x80 + r mod 64) # rest) = (r, 4)"
proof -
  define w where "w = r div 262144"
  define x where "x = r div 4096 mod 64"
  define y where "y = r div 64 mod 64"
  define z where "z = r mod 64"
  define a where "a = 0xF0 + w"
  define b where "b = 0x80 + x"
  define c where "c = 0x80 + y"
  define d where "d = 0x80 + z"
  have r: "w * 262144 + x * 4096 + y * 64 + z = r"
    unfolding w_def x_def y_def z_def by (rule digits64)
  have x: "0 \<le> x" "x < 64" and y: "0 \<le> y" "y < 64" and z: "0 \<le> z" "z < 64"
    unfolding x_def y_def z_def by simp_all
  have w: "0 \<le> w" "w < 5" using assms r x y z by linarith+
  have a: "0xF0 \<le> a" "a \<le> 0xF4" using w unfolding a_def by linarith+
  have b: "0x80 \<le> b" "b \<le> 0xBF" using x unfolding b_def by linarith+
  have c: "0x80 \<le> c" "c \<le> 0xBF" using y unfolding c_def by linarith+
  have d: "0x80 \<le> d" "d \<le> 0xBF" using z unfolding d_def by linarith+
  have lo: "a = 0xF0 \<Longrightarrow> 0x90 \<le> b" using assms r x y z unfolding a_def b_def by linarith
  have hi: "a = 0xF4 \<Longrightarrow> b \<le> 0x8F" using assms r x y z unfolding a_def b_def by linarith
  have "a mod 8 = w" "b mod 64 = x" "c mod 64 = y" "d mod 64 = z"
    unfolding a_def b_def c_def d_def using w x y z by (simp_all add: lead4 cont)
  then have val: "a mod 8 * 262144 + b mod 64 * 4096 + c mod 64 * 64 + d mod 64 = r"
    using r by simp
  have oa: "of_char (char_of a) = a" using a by simp
  have ob: "of_char (char_of b) = b" using b by simp
  have oc: "of_char (char_of c) = c" using c by simp
  have od: "of_char (char_of d) = d" using d by simp
  have sl: "seqLen a = 4" using a by (simp add: seqLen_def)
  have ar: "fst (acceptRange a) \<le> b" "b \<le> snd (acceptRange a)"
    using a b lo hi by (auto simp: acceptRange_def locb_def hicb_def)
  have "DecodeRuneInString (char_of a # char_of b # char_of c # char_of d # rest) = (r, 4)"
    unfolding DecodeRuneInString_def
    using a b c d ar by (simp add: Let_def oa ob oc od sl val locb_def hicb_def split_beta)
  then show ?thesis unfolding a_def b_def c_def d_def w_def x_def y_def z_def .
qed


lemma EncodeRune_cases:
  assumes "ValidRune r"
  shows "(0 \<le> r \<and> r \<le> 0x7F \<and> EncodeRune r = [char_of r]) \<or>
         (0x80 \<le> r \<and> r \<le> 0x7FF \<and>
            EncodeRune r = [char_of (0xC0 + r div 64), char_of (0x80 + r mod 64)]) \<or>
         (0x800 \<le> r \<and> r \<le> 0xFFFF \<and> \<not> (0xD800 \<le> r \<and> r \<le> 0xDFFF) \<and>
            EncodeRune r = [char_of (0xE0 + r div 4096), char_of (0x80 + r div 64 mod 64),
                            char_of (0x80 + r mod 64)]) \<or>
         (0x10000 \<le> r \<and> r \<le> 0x10FFFF \<and>
            EncodeRune r = [char_of (0xF0 + r div 262144), char_of (0x80 + r div 4096 mod 64),
                            char_of (0x80 + r div 64 mod 64), char_of (0x80 + r mod 64)])"
  using assms
  by (auto simp: ValidRune_def EncodeRune_def encode3_def MaxRune_def surrogateMin_def
                 surrogateMax_def split: if_splits)

lemma RuneLen_EncodeRune:
  assumes "ValidRune r"
  shows "RuneLen r = int (length (EncodeRune r))"
  using EncodeRune_cases [OF assms]
  by (auto simp: RuneLen_def MaxRune_def surrogateMin_def surrogateMax_def)

lemma DecodeRuneInString_EncodeRune:
  assumes "ValidRune r"
  shows "DecodeRuneInString (EncodeRune r @ rest) = (r, length (EncodeRune r))"
  using EncodeRune_cases [OF assms]
  by (elim disjE conjE) (simp_all add: decode1 decode2 decode3 decode4)

lemma rangeRunes_EncodeRune:
  assumes "ValidRune r"
  shows "rangeRunes (EncodeRune r @ rest) = r # rangeRunes rest"
proof -
  obtain c cs where e: "EncodeRune r = c # cs"
    using EncodeRune_cases [OF assms] by auto
  have "DecodeRuneInString (c # cs @ rest) = (r, Suc (length cs))"
    using DecodeRuneInString_EncodeRune [OF assms, of rest] e by simp
  then show ?thesis using e by simp
qed

lemma rangeRunes_utf8String:
  "list_all ValidRune cps \<Longrightarrow> rangeRunes (utf8String cps) = cps"
proof (induction cps)
  case Nil
  then show ?case by (simp add: utf8String_def)
next
  case (Cons r cps)
  then have "rangeRunes (EncodeRune r @ utf8String cps) = r # cps"
    by (simp add: rangeRunes_EncodeRune)
  then show ?case by (simp add: utf8String_def)
qed


lemma payload_mod:
  fixes a :: int
  shows "0xC0 \<le> a \<Longrightarrow> a \<le> 0xDF \<Longrightarrow> a mod 32 = a - 0xC0"
    and "0xE0 \<le> a \<Longrightarrow> a \<le> 0xEF \<Longrightarrow> a mod 16 = a - 0xE0"
    and "0xF0 \<le> a \<Longrightarrow> a \<le> 0xF7 \<Longrightarrow> a mod 8 = a - 0xF0"
    and "0x80 \<le> a \<Longrightarrow> a \<le> 0xBF \<Longrightarrow> a mod 64 = a - 0x80"
  using lead2 [of "a - 0xC0"] lead3 [of "a - 0xE0"] lead4 [of "a - 0xF0"] cont [of "a - 0x80"]
  by simp_all

lemma acceptRange_bounds:
  "locb \<le> fst (acceptRange a) \<and> snd (acceptRange a) \<le> hicb"
  by (simp add: acceptRange_def locb_def hicb_def)

lemma value2:
  assumes "0xC2 \<le> a" "a \<le> 0xDF" "0x80 \<le> b" "b \<le> 0xBF"
  shows "0x80 \<le> a mod 32 * 64 + b mod 64 \<and> ValidRune (a mod 32 * 64 + b mod 64)"
proof -
  have "a mod 32 = a - 0xC0" "b mod 64 = b - 0x80" using assms by (simp_all add: payload_mod)
  then show ?thesis using assms by (simp add: ValidRune_def surrogateMin_def)
qed

lemma value3:
  assumes "0xE0 \<le> a" "a \<le> 0xEF" "fst (acceptRange a) \<le> b" "b \<le> snd (acceptRange a)"
    "0x80 \<le> c" "c \<le> 0xBF"
  shows "0x80 \<le> a mod 16 * 4096 + b mod 64 * 64 + c mod 64 \<and>
         ValidRune (a mod 16 * 4096 + b mod 64 * 64 + c mod 64)"
proof -
  define x y z where "x = a - 0xE0" and "y = b - 0x80" and "z = c - 0x80"
  have b: "0x80 \<le> b" "b \<le> 0xBF"
    using assms acceptRange_bounds [of a] by (simp_all add: locb_def hicb_def)
  have lo: "x = 0 \<Longrightarrow> 32 \<le> y" using assms by (simp add: acceptRange_def x_def y_def)
  have hi: "x = 13 \<Longrightarrow> y \<le> 31" using assms by (simp add: acceptRange_def x_def y_def)
  have m: "a mod 16 = x" "b mod 64 = y" "c mod 64 = z"
    using assms b by (simp_all add: payload_mod x_def y_def z_def)
  have x: "0 \<le> x" "x \<le> 15" and y: "0 \<le> y" "y \<le> 63" and z: "0 \<le> z" "z \<le> 63"
    using assms b by (simp_all add: x_def y_def z_def)
  have "0x800 \<le> x * 4096 + y * 64 + z"
  proof (cases "x = 0")
    case True
    then show ?thesis using lo z by simp
  next
    case False
    then show ?thesis using x y z by linarith
  qed
  moreover have "x * 4096 + y * 64 + z \<le> 0xFFFF"
    using x y z by linarith
  moreover have "x * 4096 + y * 64 + z < 0xD800 \<or> 0xDFFF < x * 4096 + y * 64 + z"
  proof (cases "x = 13")
    case True
    then show ?thesis using hi z by simp
  next
    case False
    then have "x \<le> 12 \<or> 14 \<le> x" by linarith
    then show ?thesis using x y z by linarith
  qed
  ultimately show ?thesis
    unfolding m by (auto simp: ValidRune_def surrogateMin_def surrogateMax_def MaxRune_def)
qed

lemma value4:
  assumes "0xF0 \<le> a" "a \<le> 0xF4" "fst (acceptRange a) \<le> b" "b \<le> snd (acceptRange a)"
    "0x80 \<le> c" "c \<le> 0xBF" "0x80 \<le> d" "d \<le> 0xBF"
  shows "0x80 \<le> a mod 8 * 262144 + b mod 64 * 4096 + c mod 64 * 64 + d mod 64 \<and>
         ValidRune (a mod 8 * 262144 + b mod 64 * 4096 + c mod 64 * 64 + d mod 64)"
proof -
  define w x y z where "w = a - 0xF0" and "x = b - 0x80" and "y = c - 0x80" and "z = d - 0x80"
  have b: "0x80 \<le> b" "b \<le> 0xBF"
    using assms acceptRange_bounds [of a] by (simp_all add: locb_def hicb_def)
  have lo: "w = 0 \<Longrightarrow> 16 \<le> x" using assms by (simp add: acceptRange_def w_def x_def)
  have hi: "w = 4 \<Longrightarrow> x \<le> 15" using assms by (simp add: acceptRange_def w_def x_def)
  have m: "a mod 8 = w" "b mod 64 = x" "c mod 64 = y" "d mod 64 = z"
    using assms b by (simp_all add: payload_mod w_def x_def y_def z_def)
  have w: "0 \<le> w" "w \<le> 4" and x: "0 \<le> x" "x \<le> 63" and y: "0 \<le> y" "y \<le> 63"
    and z: "0 \<le> z" "z \<le> 63"
    using assms b by (simp_all add: w_def x_def y_def z_def)
  have "0x10000 \<le> w * 262144 + x * 4096 + y * 64 + z"
  proof (cases "w = 0")
    case True
    then show ?thesis using lo y z by simp
  next
    case False
    then show ?thesis using w x y z by linarith
  qed
  moreover have "w * 262144 + x * 4096 + y * 64 + z \<le> 0x10FFFF"
  proof (cases "w = 4")
    case True
    then show ?thesis using hi y z by simp
  next
    case False
    then have "w \<le> 3" using w by linarith
    then show ?thesis using x y z by linarith
  qed
  ultimately show ?thesis
    unfolding m by (auto simp: ValidRune_def surrogateMin_def surrogateMax_def MaxRune_def)
qed

lemma RuneError_valid: "0x80 \<le> RuneError \<and> ValidRune RuneError"
  by (simp add: RuneError_def ValidRune_def surrogateMin_def surrogateMax_def MaxRune_def)

lemma seqLen_cases:
  "seqLen a = 0 \<or> (seqLen a = 2 \<and> 0xC2 \<le> a \<and> a \<le> 0xDF) \<or>
   (seqLen a = 3 \<and> 0xE0 \<le> a \<and> a \<le> 0xEF) \<or> (seqLen a = 4 \<and> 0xF0 \<le> a \<and> a \<le> 0xF4)"
  by (simp add: seqLen_def)

lemma DecodeRuneInString_ascii:
  "(of_char c :: int) < 0x80 \<Longrightarrow> DecodeRuneInString (c # cs) = (of_char c, 1)"
  by (simp add: DecodeRuneInString_def)

lemma DecodeRuneInString_multibyte:
  assumes "0x80 \<le> (of_char c :: int)"
  shows "0x80 \<le> fst (DecodeRuneInString (c # cs)) \<and> ValidRune (fst (DecodeRuneInString (c # cs)))"
proof -
  let ?a = "of_char c :: int"
  from seqLen_cases [of ?a] show ?thesis
  proof (elim disjE conjE)
    assume "seqLen ?a = 0"
    then show ?thesis using assms RuneError_valid by (simp add: DecodeRuneInString_def)
  next
    assume "seqLen ?a = 2" "0xC2 \<le> ?a" "?a \<le> 0xDF"
    then show ?thesis
      using assms RuneError_valid value2 [of ?a "of_char (cs ! 0)"] acceptRange_bounds [of ?a]
      by (auto simp: DecodeRuneInString_def Let_def split_beta locb_def hicb_def)
  next
    assume "seqLen ?a = 3" "0xE0 \<le> ?a" "?a \<le> 0xEF"
    then show ?thesis
      using assms RuneError_valid value3 [of ?a "of_char (cs ! 0)" "of_char (cs ! 1)"]
      by (auto simp: DecodeRuneInString_def Let_def split_beta locb_def hicb_def)
  next
    assume "seqLen ?a = 4" "0xF0 \<le> ?a" "?a \<le> 0xF4"
    then show ?thesis
      using assms RuneError_valid
        value4 [of ?a "of_char (cs ! 0)" "of_char (cs ! 1)" "of_char (cs ! 2)"]
      by (auto simp: DecodeRuneInString_def Let_def split_beta locb_def hicb_def)
  qed
qed

lemma DecodeRuneInString_valid: "ValidRune (fst (DecodeRuneInString (c # cs)))"
proof (cases "(of_char c :: int) < 0x80")
  case True
  then show ?thesis
    using of_char_int_range [of c]
    by (simp add: DecodeRuneInString_ascii ValidRune_def surrogateMin_def)
next
  case False
  then show ?thesis using DecodeRuneInString_multibyte [of c cs] by simp
qed

lemma rangeRunes_valid: "list_all ValidRune (rangeRunes s)"
proof (induction s rule: rangeRunes.induct)
  case 1
  then show ?case by simp
next
  case (2 c cs)
  obtain r n where d: "DecodeRuneInString (c # cs) = (r, n)" by (cases "DecodeRuneInString (c # cs)")
  have "ValidRune r" using DecodeRuneInString_valid [of c cs] d by simp
  moreover have "list_all ValidRune (rangeRunes (drop (n - 1) cs))"
    using "2.IH" [of "(r, n)" r n] d by simp
  ultimately show ?case using d by simp
qed


lemma upper_hex_table:
  "list_all (\<lambda>d. ToUpper [hextable ! d] = [upperHexDigit d]) [0..<16]"
  by code_simp

lemma ToUpper_hex_digit:
  assumes "d < 16"
  shows "ToUpper [hextable ! d] = [upperHexDigit d]"
  using upper_hex_table assms by (simp add: list_all_iff)

lemma ToUpper_append: "ToUpper (xs @ ys) = ToUpper xs @ ToUpper ys"
  by (simp add: ToUpper_def)

lemma ToUpper_hexEncodeToString:
  "''%'' @ ToUpper (hexEncodeToString [b]) = percentTriplet b"
proof -
  have "(of_char b :: nat) < 16 * 16" using nat_of_char_less_256 [of b] by simp
  then have "(of_char b :: nat) div 16 < 16" by (rule less_mult_imp_div_less)
  moreover have "(of_char b :: nat) mod 16 < 16" by simp
  ultimately have "ToUpper ([hextable ! (of_char b div 16)] @ [hextable ! (of_char b mod 16)])
      = [upperHexDigit (of_char b div 16), upperHexDigit (of_char b mod 16)]"
    unfolding ToUpper_append by (simp add: ToUpper_hex_digit)
  then show ?thesis by (simp add: hexEncodeToString_def percentTriplet_def)
qed

lemma escapeBytes_eq: "escapeBytes u acc = acc @ concat (map percentTriplet u)"
proof (induction u arbitrary: acc)
  case Nil
  then show ?case by simp
next
  case (Cons r u)
  have "escapeBytes (r # u) acc = escapeBytes u (acc @ percentTriplet r)"
    using ToUpper_hexEncodeToString [of r] by simp
  then show ?case by (simp add: Cons.IH)
qed

lemma encodeLoop_eq:
  assumes "list_all ValidRune rs"
  shows "encodeLoop name rs acc = acc @ concat (map emitCodePoint rs)"
  using assms
proof (induction rs arbitrary: acc)
  case Nil
  then show ?case by simp
next
  case (Cons s rest)
  then have v: "ValidRune s" and IH: "\<And>acc. encodeLoop name rest acc = acc @ concat (map emitCodePoint rest)"
    by simp_all
  have len: "\<not> RuneLen s < 0" using RuneLen_EncodeRune [OF v] by simp
  show ?case
  proof (cases "unreserved s")
    case True
    then have "encodeLoop name (s # rest) acc = encodeLoop name rest (acc @ EncodeRune s)"
      by (auto simp: unreserved_def stringOfRune_def)
    moreover have "emitCodePoint s = EncodeRune s" using True by (simp add: emitCodePoint_def)
    ultimately show ?thesis by (simp add: IH)
  next
    case False
    then have "encodeLoop name (s # rest) acc
        = encodeLoop name rest (escapeBytes (EncodeRune s) acc)"
      using len by (auto simp: unreserved_def Let_def)
    moreover have "emitCodePoint s = concat (map percentTriplet (EncodeRune s))"
      using False by (simp add: emitCodePoint_def)
    ultimately show ?thesis by (simp add: IH escapeBytes_eq)
  qed
qed

lemma reservedClass_unreserved: "reservedClass r \<longleftrightarrow> unreserved r"
  by (auto simp: reservedClass_def unreserved_def)

lemma unreserved_ascii: "unreserved r \<Longrightarrow> 0 \<le> r \<and> r < 0x80"
  by (auto simp: unreserved_def)

text \<open>A string whose runes are all ASCII is the string of those runes, byte by byte.\<close>

lemma ascii_runes_bytes:
  assumes "list_all (\<lambda>r. r < 0x80) (rangeRunes s)"
  shows "rangeRunes s = map of_char s"
  using assms
proof (induction s)
  case Nil
  then show ?case by simp
next
  case (Cons c cs)
  have c: "(of_char c :: int) < 0x80"
  proof (rule ccontr)
    assume "\<not> (of_char c :: int) < 0x80"
    then have "0x80 \<le> fst (DecodeRuneInString (c # cs))"
      using DecodeRuneInString_multibyte [of c cs] by simp
    moreover have "fst (DecodeRuneInString (c # cs)) < 0x80"
      using Cons.prems by (simp add: split_beta)
    ultimately show False by simp
  qed
  then have d: "DecodeRuneInString (c # cs) = (of_char c, 1)"
    by (rule DecodeRuneInString_ascii)
  then have "list_all (\<lambda>r. r < 0x80) (rangeRunes cs)" using Cons.prems by simp
  then have "rangeRunes cs = map of_char cs" by (rule Cons.IH)
  then show ?case using d by simp
qed

lemma ascii_bytes_runes:
  assumes "list_all (\<lambda>c. (of_char c :: int) < 0x80) s"
  shows "rangeRunes s = map of_char s"
  using assms by (induction s) (simp_all add: DecodeRuneInString_ascii)

lemma EncodeRune_of_char: "(of_char c :: int) < 0x80 \<Longrightarrow> EncodeRune (of_char c) = [c]"
  using of_char_int_range [of c] by (simp add: EncodeRune_def)

lemma fast_path_identity:
  assumes "reservedNamesMatchString name"
  shows "concat (map emitCodePoint (rangeRunes name)) = name"
proof -
  have u: "list_all unreserved (rangeRunes name)"
    using assms by (simp add: reservedNamesMatchString_def reservedClass_unreserved list_all_iff)
  then have "list_all (\<lambda>r. r < 0x80) (rangeRunes name)"
    using unreserved_ascii by (auto simp: list_all_iff)
  then have r: "rangeRunes name = map of_char name" by (rule ascii_runes_bytes)
  have "list_all (\<lambda>c. unreserved (of_char c)) name"
    using u unfolding r by (simp add: list_all_iff)
  then have "concat (map emitCodePoint (map of_char name)) = name"
  proof (induction name)
    case Nil
    then show ?case by simp
  next
    case (Cons c cs)
    then have "unreserved (of_char c)" by simp
    then have "emitCodePoint (of_char c) = [c]"
      using unreserved_ascii [of "of_char c"] by (simp add: emitCodePoint_def EncodeRune_of_char)
    then show ?case using Cons by simp
  qed
  then show ?thesis by (simp add: r)
qed

lemma getURLEncodedName_runes:
  "getURLEncodedName name = concat (map emitCodePoint (rangeRunes name))"
proof (cases "reservedNamesMatchString name")
  case True
  then show ?thesis by (simp add: getURLEncodedName_def fast_path_identity)
next
  case False
  then show ?thesis by (simp add: getURLEncodedName_def encodeLoop_eq rangeRunes_valid)
qed

text \<open>
  C1: \<open>getURLEncodedName\<close> works rune by rune, in the order of \<open>range\<close>: every
  name is mapped to the concatenation of what its runes emit, where an unreserved code
  point (ASCII letter, ASCII digit, one of \<open>- _ . ~ /\<close>) emits itself and any other
  code point emits one triplet \<open>%XX\<close>, in upper-case hexadecimal, per byte of its UTF-8
  encoding, in the order of the bytes. For a name that is the UTF-8 encoding of a list
  of valid code points, the runes are exactly those code points. The equation holds for
  names of unreserved characters too, so the restriction to the other names is not
  needed. The early return on a negative \<open>RuneLen\<close> is never taken.
\<close>

theorem getURLEncodedName_code_points:
  "getURLEncodedName name = concat (map emitCodePoint (rangeRunes name)) \<and>
   (list_all ValidRune cps \<longrightarrow>
      getURLEncodedName (utf8String cps) = concat (map emitCodePoint cps))"
  by (simp add: getURLEncodedName_runes rangeRunes_utf8String)

lemma utf8_e_acute: "utf8String [0xE9] = [CHR 0xC3, CHR 0xA9]"
  by (simp add: utf8String_def EncodeRune_def char_of_def)

lemma utf8_space: "utf8String [0x20] = '' ''"
  by (simp add: utf8String_def EncodeRune_def char_of_def)

theorem getURLEncodedName_code_points_witness:
  "list_all ValidRune [0xE9] \<and> getURLEncodedName [CHR 0xC3, CHR 0xA9] = ''%C3%A9'' \<and>
   list_all ValidRune [0x20] \<and> getURLEncodedName '' '' = ''%20''"
proof -
  have v: "list_all ValidRune [0xE9]" "list_all ValidRune [0x20]"
    by (simp_all add: ValidRune_def surrogateMin_def)
  have e1: "emitCodePoint 0xE9 = ''%C3%A9''"
    by (simp add: emitCodePoint_def unreserved_def EncodeRune_def percentTriplet_def
          upperHexDigit_def char_of_def)
  have e2: "emitCodePoint 0x20 = ''%20''"
    by (simp add: emitCodePoint_def unreserved_def EncodeRune_def percentTriplet_def
          upperHexDigit_def char_of_def)
  show ?thesis
    using getURLEncodedName_code_points [of "[]" "[0xE9]"]
          getURLEncodedName_code_points [of "[]" "[0x20]"] v e1 e2
    by (simp add: utf8_e_acute utf8_space)
qed


lemma of_char_le_int_nat:
  "((of_char x :: int) \<le> of_char y) = ((of_char x :: nat) \<le> of_char y)"
proof -
  have "(of_char x :: int) = int (of_char x)" "(of_char y :: int) = int (of_char y)"
    by (simp_all only: of_nat_of_char)
  then show ?thesis by (simp only: of_nat_le_iff)
qed

lemma of_char_mem_int: "((of_char c :: int) \<in> of_char ` S) = (c \<in> S)"
  by (rule inj_image_mem_iff [OF inj_of_char])

lemma unreservedByte_reservedClass: "unreservedByte c \<longleftrightarrow> reservedClass (of_char c)"
  unfolding unreservedByte_def reservedClass_def isLower_def isUpper_def isDigit_def
    of_char_le_int_nat of_char_mem_int
  by (rule refl)

lemma reservedNamesMatchString_iff:
  "reservedNamesMatchString name \<longleftrightarrow> name \<noteq> [] \<and> list_all unreservedByte name"
proof
  assume m: "reservedNamesMatchString name"
  then have "list_all (\<lambda>r. r < 0x80) (rangeRunes name)"
    using unreserved_ascii
    by (auto simp: reservedNamesMatchString_def reservedClass_unreserved list_all_iff)
  then have r: "rangeRunes name = map of_char name" by (rule ascii_runes_bytes)
  then show "name \<noteq> [] \<and> list_all unreservedByte name"
    using m by (auto simp: reservedNamesMatchString_def unreservedByte_reservedClass list_all_iff)
next
  assume a: "name \<noteq> [] \<and> list_all unreservedByte name"
  then have "list_all (\<lambda>c. reservedClass (of_char c)) name"
    by (simp add: unreservedByte_reservedClass list_all_iff)
  moreover from this have "list_all (\<lambda>c. (of_char c :: int) < 0x80) name"
    using unreserved_ascii by (auto simp: list_all_iff reservedClass_unreserved)
  then have "rangeRunes name = map of_char name" by (rule ascii_bytes_runes)
  ultimately show "reservedNamesMatchString name"
    using a by (simp add: reservedNamesMatchString_def list_all_iff)
qed

text \<open>
  C2: a non-empty name made only of bytes of the class \<open>[A-Za-z0-9\-_.~/]\<close> matches the
  regular expression of the fast path and is returned unchanged; the empty name is
  mapped to the empty string (it does not match the expression, which asks for at least
  one character, and leaves the loop without having emitted anything).
\<close>

theorem getURLEncodedName_fast_path:
  "(name \<noteq> [] \<and> list_all unreservedByte name \<longrightarrow>
      reservedNamesMatchString name \<and> getURLEncodedName name = name) \<and>
   getURLEncodedName [] = []"
  by (simp add: reservedNamesMatchString_iff getURLEncodedName_def)

theorem getURLEncodedName_fast_path_witness:
  "''a/b_c-d.e~f'' \<noteq> [] \<and> list_all unreservedByte ''a/b_c-d.e~f'' \<and>
   getURLEncodedName ''a/b_c-d.e~f'' = ''a/b_c-d.e~f''"
proof -
  have "list_all unreservedByte ''a/b_c-d.e~f''"
    by (simp add: unreservedByte_def isLower_def isUpper_def isDigit_def)
  then show ?thesis using getURLEncodedName_fast_path [of "''a/b_c-d.e~f''"] by simp
qed

text \<open>
  C3: the code at a name that is not well-formed UTF-8. The byte \<open>0xFF\<close> alone, and the
  truncated three-byte sequence \<open>0xE4 0xB8\<close> after an \<open>a\<close>, are not returned as they are:
  \<open>range\<close> yields \<open>RuneError\<close> (U+FFFD) for each invalid byte, \<open>RuneLen\<close> of it is 3, and
  the loop emits the escaped encoding \<open>%EF%BF%BD\<close> of the replacement character.
\<close>

theorem getURLEncodedName_malformed:
  "getURLEncodedName [CHR 0xFF] = ''%EF%BF%BD'' \<and>
   getURLEncodedName [CHR ''a'', CHR 0xE4, CHR 0xB8] = ''a%EF%BF%BD%EF%BF%BD''"
  by code_simp

subsection \<open>Keyed hash\<close>

lemma length_PutUint32: "length (PutUint32 v) = 4"
  by (simp add: PutUint32_def)

lemma length_sha256Sum: "length (sha256Sum msg) = Size"
  by (simp add: sha256Sum_def Let_def length_PutUint32 Size_def split: prod.splits)

text \<open>The model against a published answer: test case 2 of RFC 4231 for HMAC-SHA-256.\<close>

lemma sumHMAC_known_answer:
  "sumHMAC (bytesOf ''Jefe'') (bytesOf ''what do ya want for nothing?'') =
     [0x5B, 0xDC, 0xC1, 0x46, 0xBF, 0x60, 0x75, 0x4E, 0x6A, 0x04, 0x24, 0x26, 0x08, 0x95, 0x75, 0xC7,
      0x5A, 0x00, 0x3F, 0x08, 0x9D, 0x27, 0x39, 0x83, 0x9D, 0xEC, 0x58, 0xB9, 0x64, 0xEC, 0x38, 0x43]"
  by code_simp

text \<open>
  C9: for every key and every data, empty ones included, \<open>sumHMAC\<close> returns exactly 32
  bytes, and calls with the same key and data return the same bytes. Every call builds
  its own \<open>hmac\<close> value with \<open>hmacNew\<close>, so the result is a function of the two arguments
  alone; the function has no error result.
\<close>

theorem sumHMAC_digest:
  "length (sumHMAC key data) = 32 \<and>
   (key' = key \<and> data' = data \<longrightarrow> sumHMAC key' data' = sumHMAC key data)"
  by (simp add: sumHMAC_def hmacSum_def Let_def length_sha256Sum Size_def)

theorem sumHMAC_digest_witness:
  "length (sumHMAC [] []) = 32 \<and>
   length (sumHMAC (bytesOf ''Jefe'') (bytesOf ''what do ya want for nothing?'')) = 32"
  using sumHMAC_digest [of "[]" "[]" "[]" "[]"]
        sumHMAC_digest [of "bytesOf ''Jefe''" "bytesOf ''what do ya want for nothing?''"
                           "bytesOf ''Jefe''" "bytesOf ''what do ya want for nothing?''"]
  by simp

end
